theory Spec2Isabelle
  imports Main
begin

section \<open>The back-handler registry and its binding helper (src/src/back-handler.ts)\<close>

text \<open>
  The registry \<open>BackHandler\<close> is one mutable object; history entries are objects that
  are compared by reference and mutated in place. The model therefore keeps an explicit
  store of entry objects (\<open>heap\<close>, addressed by \<open>ref\<close>) and a \<open>history\<close> of references.
  Caller-supplied callbacks are opaque: a call is recorded in \<open>trace\<close>, and what a boolean
  callback returns is read from the environment \<open>env\<close>. The condition of an entry is the
  one callback after which the registry goes on to act (the \<open>pop\<close> of line 89 follows the
  call of line 88), so a condition may in addition call \<open>BackHandler.addHistory\<close> and
  \<open>BackHandler.removeHistory\<close> while it runs; every other callback is the last thing its
  operation does. Callbacks that throw are outside the model.
\<close>

subsection \<open>Values of the host framework\<close>

type_synonym ref = nat
type_synonym callback = nat
type_synonym app = nat

text \<open>\<open>MaybeRefOrGetter<boolean>\<close>: a plain boolean, a reactive reference or a getter.\<close>

datatype source = Val bool | Ref nat | Getter callback

record environment =
  refs :: "nat \<Rightarrow> bool"
  results :: "callback \<Rightarrow> bool"

text \<open>\<open>toValue\<close> of the host framework: a plain value is returned, a reference is read,
  a getter is called.\<close>

fun toValue :: "source \<Rightarrow> environment \<Rightarrow> bool" where
  "toValue (Val b) v = b"
| "toValue (Ref r) v = refs v r"
| "toValue (Getter g) v = results v g"

subsection \<open>Entries, options, events\<close>

text \<open>A call of \<open>BackHandler.addHistory(entry)\<close> or \<open>BackHandler.removeHistory(entry)\<close>
  made from inside a callback.\<close>

datatype call = AddCall ref | RemoveCall ref

text \<open>The functions that can sit in \<open>entry.condition\<close>: \<open>getTrue\<close>, the closure
  \<open>() => toValue(autoHideOnRouteChange)\<close> built by the binding helper, a predicate
  supplied by the caller, or a predicate supplied by the caller that first makes the
  given calls to the registry.\<close>

datatype cond =
    GetTrue
  | ToValue source
  | UserCondition callback
  | ReentrantCondition callback "call list"

text \<open>Modelled from the spec: \<open>getTrue\<close> of \<open>./utils\<close> is not among the sources; the
  spec calls it the constant-true default condition. The other two cases follow
  back-handler.ts.\<close>

fun call_condition :: "cond \<Rightarrow> environment \<Rightarrow> bool" where
  "call_condition GetTrue v = True"
| "call_condition (ToValue s) v = toValue s v"
| "call_condition (UserCondition c) v = results v c"
| "call_condition (ReentrantCondition c cs) v = results v c"

text \<open>The calls to the registry that a condition makes while it runs.\<close>

fun condition_calls :: "cond \<Rightarrow> call list" where
  "condition_calls GetTrue = []"
| "condition_calls (ToValue s) = []"
| "condition_calls (UserCondition c) = []"
| "condition_calls (ReentrantCondition c cs) = cs"

record entry =
  condition :: "cond option"
  handler :: callback

record options =
  onHistoryAdded :: "callback option"
  onHistoryRemoved :: "callback option"
  defaultBackAction :: callback
  registerPlatformBackListener :: callback

text \<open>One event per call that leaves the registry. The listener handed to
  \<open>registerPlatformBackListener\<close> is the closure \<open>backHandler\<close> over the options of that
  install, so the event carries those options.\<close>

datatype event =
    CallCondition ref
  | CallHandler ref callback
  | CallOnHistoryAdded callback ref
  | CallOnHistoryRemoved callback ref
  | CallDefaultBackAction callback
  | CallOnUnmount app
  | CallRegisterPlatformBackListener callback options

datatype error = TypeError

text \<open>A function slot of the registry holds \<open>noop\<close> or the closure created by the install
  that received the given options.\<close>

datatype slot = Noop | Live options

record world =
  isBrowser :: bool
  installed :: bool
  history :: "ref list"
  addHistory :: slot
  removeHistory :: slot
  heap :: "entry list"
  env :: environment
  trace :: "event list"

definition init :: "bool \<Rightarrow> entry list \<Rightarrow> environment \<Rightarrow> world" where
  "init b h v =
     \<lparr>isBrowser = b, installed = False, history = [], addHistory = Noop,
      removeHistory = Noop, heap = h, env = v, trace = []\<rparr>"

definition lookup :: "entry list \<Rightarrow> ref \<Rightarrow> entry option" where
  "lookup h r = (if r < length h then Some (h ! r) else None)"

subsection \<open>The registry\<close>

text \<open>Modelled from the spec: \<open>noop\<close> of \<open>./utils\<close> is not among the sources; the spec
  says that the slots holding it are no-ops.\<close>

definition noop :: "world \<Rightarrow> ref \<Rightarrow> world" where
  "noop w e = w"

text \<open>\<open>Array.prototype.indexOf\<close> and \<open>splice(index, 1)\<close> on the history array.\<close>

fun indexOf :: "ref list \<Rightarrow> ref \<Rightarrow> int" where
  "indexOf [] x = - 1"
| "indexOf (y # ys) x =
     (if y = x then 0 else (let i = indexOf ys x in if i = - 1 then - 1 else i + 1))"

definition splice1 :: "ref list \<Rightarrow> int \<Rightarrow> ref list" where
  "splice1 xs i = take (nat i) xs @ drop (nat i + 1) xs"

text \<open>The closure assigned to \<open>self.addHistory\<close> (lines 63-67). A reference that is not
  an object stands for \<open>undefined\<close>, on which the property access throws.\<close>

definition addHistory_live :: "options \<Rightarrow> world \<Rightarrow> ref \<Rightarrow> error + world" where
  "addHistory_live opts w e =
     (case lookup (heap w) e of
        None \<Rightarrow> Inl TypeError
      | Some ent \<Rightarrow>
          (let h1 = (case condition ent of
                       None \<Rightarrow> (heap w)[e := ent\<lparr>condition := Some GetTrue\<rparr>]
                     | Some c \<Rightarrow> heap w);
               t1 = (case onHistoryAdded opts of
                       None \<Rightarrow> trace w
                     | Some f \<Rightarrow> trace w @ [CallOnHistoryAdded f e])
           in Inr (w\<lparr>heap := h1, history := history w @ [e], trace := t1\<rparr>)))"

text \<open>The closure assigned to \<open>self.removeHistory\<close> (lines 69-75).\<close>

definition removeHistory_live :: "options \<Rightarrow> world \<Rightarrow> ref \<Rightarrow> world" where
  "removeHistory_live opts w e =
     (let index = indexOf (history w) e
      in if index > - 1
         then w\<lparr>history := splice1 (history w) index,
                trace := (case onHistoryRemoved opts of
                            None \<Rightarrow> trace w
                          | Some f \<Rightarrow> trace w @ [CallOnHistoryRemoved f e])\<rparr>
         else w)"

text \<open>\<open>BackHandler.addHistory(entry)\<close> and \<open>BackHandler.removeHistory(entry)\<close>: a call
  through the slot.\<close>

definition call_addHistory :: "world \<Rightarrow> ref \<Rightarrow> error + world" where
  "call_addHistory w e =
     (case addHistory w of Noop \<Rightarrow> Inr (noop w e) | Live opts \<Rightarrow> addHistory_live opts w e)"

definition call_removeHistory :: "world \<Rightarrow> ref \<Rightarrow> world" where
  "call_removeHistory w e =
     (case removeHistory w of Noop \<Rightarrow> noop w e | Live opts \<Rightarrow> removeHistory_live opts w e)"

text \<open>The calls of a callback, in order; an exception ends them.\<close>

fun perform :: "call list \<Rightarrow> world \<Rightarrow> error + world" where
  "perform [] w = Inr w"
| "perform (AddCall e # cs) w =
     (case call_addHistory w e of Inl err \<Rightarrow> Inl err | Inr w' \<Rightarrow> perform cs w')"
| "perform (RemoveCall e # cs) w = perform cs (call_removeHistory w e)"

text \<open>The callback given to \<open>app.onUnmount\<close> (lines 77-83).\<close>

definition teardown :: "world \<Rightarrow> world" where
  "teardown w = w\<lparr>addHistory := Noop, removeHistory := Noop, history := [], installed := False\<rparr>"

text \<open>The listener \<open>backHandler\<close> (lines 85-96). \<open>entry && ...\<close> skips an undefined top;
  \<open>entry.condition!()\<close> throws when the condition is undefined. The condition runs
  between the read of the top entry (line 87) and \<open>self.history.pop()\<close> (line 89), which
  removes whatever is last in the history at that moment; \<open>entry.handler\<close> is the handler
  of the entry read at line 87, which no call to the registry assigns.\<close>

definition backHandler :: "options \<Rightarrow> world \<Rightarrow> error + world" where
  "backHandler opts w =
     (if length (history w) \<noteq> 0
      then (let e = history w ! (length (history w) - 1)
            in case lookup (heap w) e of
                 None \<Rightarrow> Inr w
               | Some ent \<Rightarrow>
                   (case condition ent of
                      None \<Rightarrow> Inl TypeError
                    | Some c \<Rightarrow>
                        (case perform (condition_calls c)
                                (w\<lparr>trace := trace w @ [CallCondition e]\<rparr>) of
                           Inl err \<Rightarrow> Inl err
                         | Inr w1 \<Rightarrow>
                             if call_condition c (env w1)
                             then Inr (w1\<lparr>history := butlast (history w1),
                                         trace := trace w1 @ [CallHandler e (handler ent)]\<rparr>)
                             else Inr w1)))
      else Inr (w\<lparr>trace := trace w @ [CallDefaultBackAction (defaultBackAction opts)]\<rparr>))"

text \<open>\<open>install(app, options)\<close> (lines 55-99). \<open>isBrowser\<close> of \<open>./utils\<close> is a constant of
  the runtime and is taken as a parameter, the field \<open>isBrowser\<close>.\<close>

definition install :: "app \<Rightarrow> options \<Rightarrow> world \<Rightarrow> world" where
  "install a opts w =
     (if installed w \<or> \<not> isBrowser w then w
      else w\<lparr>installed := True, addHistory := Live opts, removeHistory := Live opts,
             trace := trace w @
               [CallOnUnmount a,
                CallRegisterPlatformBackListener (registerPlatformBackListener opts) opts]\<rparr>)"

subsection \<open>Sequences of operations on the registry\<close>

text \<open>The five operations of the registry, and what its callers do besides: create an
  entry object, assign to the fields of one, and change what the reactive values and
  the boolean callbacks yield.\<close>

datatype op =
    Install app options
  | AddHistory ref
  | RemoveHistory ref
  | Listener options
  | Teardown
  | NewEntry entry
  | SetEntry ref entry
  | SetEnv environment

fun step :: "op \<Rightarrow> world \<Rightarrow> error + world" where
  "step (Install a opts) w = Inr (install a opts w)"
| "step (AddHistory e) w = call_addHistory w e"
| "step (RemoveHistory e) w = Inr (call_removeHistory w e)"
| "step (Listener opts) w = backHandler opts w"
| "step Teardown w = Inr (teardown w)"
| "step (NewEntry ent) w = Inr (w\<lparr>heap := heap w @ [ent]\<rparr>)"
| "step (SetEntry r ent) w = Inr (w\<lparr>heap := (heap w)[r := ent]\<rparr>)"
| "step (SetEnv v) w = Inr (w\<lparr>env := v\<rparr>)"

fun run :: "op list \<Rightarrow> world \<Rightarrow> error + world" where
  "run [] w = Inr w"
| "run (x # xs) w = (case step x w of Inl err \<Rightarrow> Inl err | Inr w' \<Rightarrow> run xs w')"

text \<open>The slots and the \<open>installed\<close> flag change together: both slots hold \<open>noop\<close>
  when the registry is not installed, and the closures of one install when it is.\<close>

definition slots_ok :: "world \<Rightarrow> bool" where
  "slots_ok w =
     (case addHistory w of
        Noop \<Rightarrow> removeHistory w = Noop \<and> \<not> installed w
      | Live opts \<Rightarrow> removeHistory w = Live opts \<and> installed w)"

text \<open>The calls that the condition of the top entry makes when the listener runs it, and
  the world in which it makes them.\<close>

definition top_calls :: "world \<Rightarrow> call list" where
  "top_calls w =
     (if length (history w) \<noteq> 0
      then (case lookup (heap w) (history w ! (length (history w) - 1)) of
              None \<Rightarrow> []
            | Some ent \<Rightarrow> (case condition ent of None \<Rightarrow> [] | Some c \<Rightarrow> condition_calls c))
      else [])"

definition at_condition :: "world \<Rightarrow> world" where
  "at_condition w = w\<lparr>trace := trace w @ [CallCondition (history w ! (length (history w) - 1))]\<rparr>"

text \<open>No \<open>addHistory\<close> among the calls is given an entry that is in \<open>history\<close> at that
  moment.\<close>

fun fresh_calls :: "call list \<Rightarrow> world \<Rightarrow> bool" where
  "fresh_calls [] w = True"
| "fresh_calls (AddCall e # cs) w =
     (e \<notin> set (history w) \<and>
      (case call_addHistory w e of Inl err \<Rightarrow> True | Inr w' \<Rightarrow> fresh_calls cs w'))"
| "fresh_calls (RemoveCall e # cs) w = fresh_calls cs (call_removeHistory w e)"

text \<open>No \<open>addHistory\<close> of the sequence, whether an operation of its own or a call made by
  a condition that the listener runs, is given an entry that is in \<open>history\<close> at that
  moment.\<close>

fun no_readd :: "op list \<Rightarrow> world \<Rightarrow> bool" where
  "no_readd [] w = True"
| "no_readd (x # xs) w =
     ((case x of
         AddHistory e \<Rightarrow> e \<notin> set (history w)
       | Listener opts \<Rightarrow> fresh_calls (top_calls w) (at_condition w)
       | _ \<Rightarrow> True) \<and>
      (case step x w of Inl err \<Rightarrow> True | Inr w' \<Rightarrow> no_readd xs w'))"


definition registrations :: "event list \<Rightarrow> nat" where
  "registrations t =
     length (filter (\<lambda>ev. case ev of CallRegisterPlatformBackListener f opts \<Rightarrow> True | _ \<Rightarrow> False) t)"

text \<open>The options of the most recent install that went through, read off the trace.\<close>

definition last_registered :: "event list \<Rightarrow> options option" where
  "last_registered t =
     foldl (\<lambda>acc ev. case ev of CallRegisterPlatformBackListener f opts \<Rightarrow> Some opts | _ \<Rightarrow> acc)
       None t"

text \<open>The live slots are the closures created by that install.\<close>

definition installer_ok :: "world \<Rightarrow> bool" where
  "installer_ok w =
     (case addHistory w of Noop \<Rightarrow> True | Live opts \<Rightarrow> last_registered (trace w) = Some opts)"

text \<open>The history that a sequence of operations leaves behind.\<close>

definition run_history :: "op list \<Rightarrow> world \<Rightarrow> ref list option" where
  "run_history xs w = (case run xs w of Inl err \<Rightarrow> None | Inr w' \<Rightarrow> Some (history w'))"

subsection \<open>The binding helper \<open>useBackHandler\<close>\<close>

text \<open>The closure state of one call of \<open>useBackHandler(showing, onHide,
  autoHideOnRouteChange)\<close>: its three arguments and the variable \<open>historyEntry\<close>.\<close>

record binding =
  showing :: source
  onHide :: callback
  autoHideOnRouteChange :: source
  historyEntry :: "ref option"

definition useBackHandler :: "source \<Rightarrow> callback \<Rightarrow> source \<Rightarrow> binding" where
  "useBackHandler s f a =
     \<lparr>showing = s, onHide = f, autoHideOnRouteChange = a, historyEntry = None\<rparr>"

definition removeFromHistory :: "binding \<Rightarrow> world \<Rightarrow> binding \<times> world" where
  "removeFromHistory b w =
     (case historyEntry b of
        None \<Rightarrow> (b, w)
      | Some e \<Rightarrow> (b\<lparr>historyEntry := None\<rparr>, call_removeHistory w e))"

text \<open>\<open>addToHistory\<close> allocates a new entry object, stores its reference in
  \<open>historyEntry\<close> and passes it to \<open>BackHandler.addHistory\<close>.\<close>

definition addToHistory :: "binding \<Rightarrow> world \<Rightarrow> error + binding \<times> world" where
  "addToHistory b w =
     (let e = length (heap w);
          w1 = w\<lparr>heap := heap w @
                 [\<lparr>condition = Some (ToValue (autoHideOnRouteChange b)), handler = onHide b\<rparr>]\<rparr>
      in case call_addHistory w1 e of
           Inl err \<Rightarrow> Inl err
         | Inr w2 \<Rightarrow> Inr (b\<lparr>historyEntry := Some e\<rparr>, w2))"

text \<open>The callback given to \<open>onScopeDispose\<close>: \<open>toValue(showing) && removeFromHistory()\<close>.\<close>

definition scopeDispose :: "binding \<Rightarrow> world \<Rightarrow> binding \<times> world" where
  "scopeDispose b w = (if toValue (showing b) (env w) then removeFromHistory b w else (b, w))"

subsection \<open>Concrete values for the examples\<close>

definition env0 :: environment where
  "env0 = \<lparr>refs = (\<lambda>r. r = 0), results = (\<lambda>c. c = 0)\<rparr>"

definition opts0 :: options where
  "opts0 = \<lparr>onHistoryAdded = Some 10, onHistoryRemoved = Some 11,
            defaultBackAction = 12, registerPlatformBackListener = 13\<rparr>"

definition heap0 :: "entry list" where
  "heap0 = [\<lparr>condition = None, handler = 20\<rparr>,
            \<lparr>condition = Some (UserCondition 1), handler = 21\<rparr>,
            \<lparr>condition = Some (UserCondition 0), handler = 22\<rparr>]"

definition w_inst :: world where
  "w_inst = install 1 opts0 (init True heap0 env0)"

text \<open>The state after installing and adding entries 1, 2 and 1 again.\<close>

definition w_dup :: world where
  "w_dup = w_inst\<lparr>history := [1, 2, 1],
                   trace := trace w_inst @
                     [CallOnHistoryAdded 10 1, CallOnHistoryAdded 10 2, CallOnHistoryAdded 10 1]\<rparr>"

text \<open>An environment in which every reactive reference is false, and a binding whose
  two flags are the reference 0; the states after adding entry 2, after the binding's
  \<open>addToHistory\<close>, and after the listener has popped the binding's entry.\<close>

definition env1 :: environment where
  "env1 = env0\<lparr>refs := (\<lambda>r. False)\<rparr>"

definition b0 :: binding where
  "b0 = useBackHandler (Ref 0) 30 (Ref 0)"

definition w_a :: world where
  "w_a = w_inst\<lparr>history := [2], trace := trace w_inst @ [CallOnHistoryAdded 10 2]\<rparr>"

definition b1 :: binding where
  "b1 = b0\<lparr>historyEntry := Some 3\<rparr>"

definition w_b :: world where
  "w_b = w_a\<lparr>heap := heap0 @ [\<lparr>condition = Some (ToValue (Ref 0)), handler = 30\<rparr>],
               history := [2, 3],
               trace := trace w_a @ [CallOnHistoryAdded 10 3]\<rparr>"

definition w_c :: world where
  "w_c = w_b\<lparr>history := [2], trace := trace w_b @ [CallCondition 3, CallHandler 3 30]\<rparr>"

text \<open>A store whose entry 3 has a condition that adds entry 0 to the registry and then
  returns true, and whose entry 4 has a condition that asks the registry to remove
  entry 0 and then returns true; the state after installing and adding entries 1 and 3;
  the state after the listener has run in it; and an installed state with entries 1 and
  4 in the history.\<close>

definition heap_r :: "entry list" where
  "heap_r = heap0 @ [\<lparr>condition = Some (ReentrantCondition 0 [AddCall 0]), handler = 23\<rparr>,
                     \<lparr>condition = Some (ReentrantCondition 0 [RemoveCall 0]), handler = 24\<rparr>]"

definition w_r :: world where
  "w_r = (install 1 opts0 (init True heap_r env0))
           \<lparr>history := [1, 3],
            trace := trace (install 1 opts0 (init True heap_r env0)) @
              [CallOnHistoryAdded 10 1, CallOnHistoryAdded 10 3]\<rparr>"

definition w_r' :: world where
  "w_r' = w_r\<lparr>heap := heap_r[0 := \<lparr>condition = Some GetTrue, handler = 20\<rparr>],
               trace := trace w_r @
                 [CallCondition 3, CallOnHistoryAdded 10 0, CallHandler 3 23]\<rparr>"

definition w_q :: world where
  "w_q = (install 1 opts0 (init True heap_r env0))\<lparr>history := [1, 4]\<rparr>"

section \<open>Auxiliary facts\<close>

lemma indexOf_ge: "- 1 \<le> indexOf xs x"
  by (induction xs) (auto simp: Let_def)

lemma indexOf_notin: "x \<notin> set xs \<Longrightarrow> indexOf xs x = - 1"
  by (induction xs) (auto simp: Let_def)

lemma indexOf_in: "x \<in> set xs \<Longrightarrow> 0 \<le> indexOf xs x"
  using indexOf_ge [of _ x] by (induction xs) (auto simp: Let_def)

lemma splice1_indexOf: "x \<in> set xs \<Longrightarrow> splice1 xs (indexOf xs x) = remove1 x xs"
proof (induction xs)
  case Nil
  then show ?case by simp
next
  case (Cons y ys)
  show ?case
  proof (cases "y = x")
    case True
    then show ?thesis by (simp add: splice1_def)
  next
    case False
    with Cons.prems have mem: "x \<in> set ys" by simp
    then have nn: "0 \<le> indexOf ys x" by (rule indexOf_in)
    then have "nat (indexOf ys x + 1) = Suc (nat (indexOf ys x))" by simp
    with False nn Cons.IH [OF mem] show ?thesis
      by (simp add: splice1_def Let_def)
  qed
qed

lemma remove1_split_first:
  "x \<in> set xs \<Longrightarrow> \<exists>pre post. xs = pre @ x # post \<and> x \<notin> set pre \<and> remove1 x xs = pre @ post"
proof -
  assume "x \<in> set xs"
  then obtain pre post where "xs = pre @ x # post" "x \<notin> set pre"
    by (auto dest: split_list_first)
  then show ?thesis by (auto simp: remove1_append)
qed

lemma removeHistory_live_in:
  "e \<in> set (history w) \<Longrightarrow>
   removeHistory_live opts w e =
     w\<lparr>history := remove1 e (history w),
       trace := trace w @ (case onHistoryRemoved opts of None \<Rightarrow> [] | Some f \<Rightarrow> [CallOnHistoryRemoved f e])\<rparr>"
  using indexOf_in [of e "history w"]
  by (auto simp: removeHistory_live_def Let_def splice1_indexOf split: option.splits)

lemma removeHistory_live_notin:
  "e \<notin> set (history w) \<Longrightarrow> removeHistory_live opts w e = w"
  by (simp add: removeHistory_live_def Let_def indexOf_notin)

lemma slots_ok_init: "slots_ok (init b h v)"
  by (simp add: slots_ok_def init_def)

lemma slots_ok_add: "slots_ok w \<Longrightarrow> call_addHistory w e = Inr w' \<Longrightarrow> slots_ok w'"
  by (auto simp: slots_ok_def call_addHistory_def noop_def addHistory_live_def Let_def
      split: slot.splits option.splits)

lemma slots_ok_remove: "slots_ok w \<Longrightarrow> slots_ok (call_removeHistory w e)"
  by (auto simp: slots_ok_def call_removeHistory_def noop_def removeHistory_live_def Let_def
      split: slot.splits)

lemma slots_ok_perform: "slots_ok w \<Longrightarrow> perform cs w = Inr w' \<Longrightarrow> slots_ok w'"
proof (induction cs w rule: perform.induct)
  case (1 w)
  then show ?case by simp
next
  case (2 e cs w)
  then show ?case by (auto split: sum.splits dest: slots_ok_add)
next
  case (3 e cs w)
  then show ?case by (auto dest: slots_ok_remove)
qed

text \<open>What the listener leaves behind, by the branch it took.\<close>

lemma backHandler_cases:
  assumes "backHandler opts w = Inr w'"
  shows "w' = w\<lparr>trace := trace w @ [CallDefaultBackAction (defaultBackAction opts)]\<rparr> \<or> w' = w \<or>
         (\<exists>w1 e f. perform (top_calls w) (at_condition w) = Inr w1 \<and>
            (w' = w1 \<or>
             w' = w1\<lparr>history := butlast (history w1), trace := trace w1 @ [CallHandler e f]\<rparr>))"
  using assms
  by (auto simp: backHandler_def top_calls_def at_condition_def Let_def
      split: if_splits option.splits sum.splits) blast+

lemma slots_ok_upd:
  "slots_ok (w\<lparr>trace := t\<rparr>) = slots_ok w" "slots_ok (w\<lparr>history := hs\<rparr>) = slots_ok w"
  by (simp_all add: slots_ok_def split: slot.splits)

lemma slots_ok_backHandler:
  assumes "slots_ok w" and "backHandler opts w = Inr w'"
  shows "slots_ok w'"
proof -
  from assms(1) have "slots_ok (at_condition w)"
    by (simp add: at_condition_def slots_ok_upd)
  with backHandler_cases [OF assms(2)] assms(1) show ?thesis
    by (auto simp: slots_ok_upd dest: slots_ok_perform)
qed

lemma slots_ok_step: "slots_ok w \<Longrightarrow> step x w = Inr w' \<Longrightarrow> slots_ok w'"
proof (cases x)
  case (Install a opts)
  then show "slots_ok w \<Longrightarrow> step x w = Inr w' \<Longrightarrow> slots_ok w'"
    by (auto simp: slots_ok_def install_def split: slot.splits if_splits)
next
  case (AddHistory e)
  then show "slots_ok w \<Longrightarrow> step x w = Inr w' \<Longrightarrow> slots_ok w'"
    by (auto dest: slots_ok_add)
next
  case (RemoveHistory e)
  then show "slots_ok w \<Longrightarrow> step x w = Inr w' \<Longrightarrow> slots_ok w'"
    by (auto dest: slots_ok_remove)
next
  case (Listener opts)
  then show "slots_ok w \<Longrightarrow> step x w = Inr w' \<Longrightarrow> slots_ok w'"
    by (auto dest: slots_ok_backHandler)
next
  case Teardown
  then show "slots_ok w \<Longrightarrow> step x w = Inr w' \<Longrightarrow> slots_ok w'"
    by (auto simp: slots_ok_def teardown_def)
next
  case (NewEntry ent)
  then show "slots_ok w \<Longrightarrow> step x w = Inr w' \<Longrightarrow> slots_ok w'"
    by (auto simp: slots_ok_def split: slot.splits)
next
  case (SetEntry r ent)
  then show "slots_ok w \<Longrightarrow> step x w = Inr w' \<Longrightarrow> slots_ok w'"
    by (auto simp: slots_ok_def split: slot.splits)
next
  case (SetEnv v)
  then show "slots_ok w \<Longrightarrow> step x w = Inr w' \<Longrightarrow> slots_ok w'"
    by (auto simp: slots_ok_def split: slot.splits)
qed

lemma slots_ok_run: "slots_ok w \<Longrightarrow> run xs w = Inr w' \<Longrightarrow> slots_ok w'"
proof (induction xs arbitrary: w)
  case Nil
  then show ?case by simp
next
  case (Cons x xs)
  then show ?case by (auto split: sum.splits dest: slots_ok_step)
qed

lemma reachable_slots: "run xs (init b h v) = Inr w \<Longrightarrow> slots_ok w"
  by (rule slots_ok_run [OF slots_ok_init])

lemma registrations_append: "registrations (t @ u) = registrations t + registrations u"
  by (simp add: registrations_def)

lemma last_registered_snoc:
  "last_registered (t @ [ev]) =
     (case ev of CallRegisterPlatformBackListener f opts \<Rightarrow> Some opts | _ \<Rightarrow> last_registered t)"
  by (cases ev) (simp_all add: last_registered_def)

lemma last_registered_snoc2:
  "last_registered (t @ [ev1, ev2]) =
     (case ev2 of CallRegisterPlatformBackListener f opts \<Rightarrow> Some opts
      | _ \<Rightarrow> (case ev1 of CallRegisterPlatformBackListener f opts \<Rightarrow> Some opts | _ \<Rightarrow> last_registered t))"
  by (cases ev2; cases ev1) (simp_all add: last_registered_def)

lemma installer_ok_init: "installer_ok (init b h v)"
  by (simp add: installer_ok_def init_def)

lemma installer_ok_add: "installer_ok w \<Longrightarrow> call_addHistory w e = Inr w' \<Longrightarrow> installer_ok w'"
  by (auto simp: installer_ok_def call_addHistory_def noop_def addHistory_live_def Let_def
        last_registered_snoc split: slot.splits option.splits)

lemma installer_ok_remove: "installer_ok w \<Longrightarrow> installer_ok (call_removeHistory w e)"
  by (auto simp: installer_ok_def call_removeHistory_def noop_def removeHistory_live_def Let_def
        last_registered_snoc split: slot.splits option.splits)

lemma installer_ok_perform: "installer_ok w \<Longrightarrow> perform cs w = Inr w' \<Longrightarrow> installer_ok w'"
proof (induction cs w rule: perform.induct)
  case (1 w)
  then show ?case by simp
next
  case (2 e cs w)
  then show ?case by (auto split: sum.splits dest: installer_ok_add)
next
  case (3 e cs w)
  then show ?case by (auto dest: installer_ok_remove)
qed

lemma installer_ok_upd:
  "installer_ok (w\<lparr>history := hs\<rparr>) = installer_ok w"
  "installer_ok w \<Longrightarrow> installer_ok (w\<lparr>trace := trace w @ [CallCondition e]\<rparr>)"
  "installer_ok w \<Longrightarrow>
     installer_ok (w\<lparr>history := hs, trace := trace w @ [CallHandler e f]\<rparr>)"
  "installer_ok w \<Longrightarrow> installer_ok (w\<lparr>trace := trace w @ [CallDefaultBackAction f]\<rparr>)"
  by (simp_all add: installer_ok_def last_registered_snoc split: slot.splits)

lemma installer_ok_backHandler:
  assumes "installer_ok w" and "backHandler opts w = Inr w'"
  shows "installer_ok w'"
proof -
  from assms(1) have "installer_ok (at_condition w)"
    by (simp add: at_condition_def installer_ok_upd)
  with backHandler_cases [OF assms(2)] assms(1) show ?thesis
    by (auto simp: installer_ok_upd dest: installer_ok_perform)
qed

lemma installer_ok_step: "installer_ok w \<Longrightarrow> step x w = Inr w' \<Longrightarrow> installer_ok w'"
proof (cases x)
  case (Install a opts)
  then show "installer_ok w \<Longrightarrow> step x w = Inr w' \<Longrightarrow> installer_ok w'"
    by (auto simp: installer_ok_def install_def last_registered_snoc2 split: slot.splits if_splits)
next
  case (AddHistory e)
  then show "installer_ok w \<Longrightarrow> step x w = Inr w' \<Longrightarrow> installer_ok w'"
    by (auto dest: installer_ok_add)
next
  case (RemoveHistory e)
  then show "installer_ok w \<Longrightarrow> step x w = Inr w' \<Longrightarrow> installer_ok w'"
    by (auto dest: installer_ok_remove)
next
  case (Listener opts)
  then show "installer_ok w \<Longrightarrow> step x w = Inr w' \<Longrightarrow> installer_ok w'"
    by (auto dest: installer_ok_backHandler)
next
  case Teardown
  then show "installer_ok w \<Longrightarrow> step x w = Inr w' \<Longrightarrow> installer_ok w'"
    by (auto simp: installer_ok_def teardown_def split: slot.splits)
next
  case (NewEntry ent)
  then show "installer_ok w \<Longrightarrow> step x w = Inr w' \<Longrightarrow> installer_ok w'"
    by (auto simp: installer_ok_def split: slot.splits)
next
  case (SetEntry r ent)
  then show "installer_ok w \<Longrightarrow> step x w = Inr w' \<Longrightarrow> installer_ok w'"
    by (auto simp: installer_ok_def split: slot.splits)
next
  case (SetEnv v)
  then show "installer_ok w \<Longrightarrow> step x w = Inr w' \<Longrightarrow> installer_ok w'"
    by (auto simp: installer_ok_def split: slot.splits)
qed

lemma installer_ok_run: "installer_ok w \<Longrightarrow> run xs w = Inr w' \<Longrightarrow> installer_ok w'"
proof (induction xs arbitrary: w)
  case Nil
  then show ?case by simp
next
  case (Cons x xs)
  then show ?case by (auto split: sum.splits dest: installer_ok_step)
qed

lemma reachable_installed:
  assumes "run xs (init b h v) = Inr w" and "installed w"
  shows "\<exists>opts. last_registered (trace w) = Some opts \<and> addHistory w = Live opts \<and>
           removeHistory w = Live opts"
proof -
  from assms(1) have "slots_ok w" by (rule reachable_slots)
  moreover from assms(1) have "installer_ok w" by (rule installer_ok_run [OF installer_ok_init])
  ultimately show ?thesis using assms(2)
    by (auto simp: slots_ok_def installer_ok_def split: slot.splits)
qed

lemma addHistory_live_obj:
  "lookup (heap w) e = Some ent \<Longrightarrow>
   addHistory_live opts w e =
     Inr (w\<lparr>heap := (case condition ent of
                       None \<Rightarrow> (heap w)[e := ent\<lparr>condition := Some GetTrue\<rparr>]
                     | Some c \<Rightarrow> heap w),
            history := history w @ [e],
            trace := trace w @ (case onHistoryAdded opts of None \<Rightarrow> [] | Some f \<Rightarrow> [CallOnHistoryAdded f e])\<rparr>)"
  by (simp add: addHistory_live_def Let_def split: option.splits)

lemma run_w_dup:
  "run [Install 1 opts0, AddHistory 1, AddHistory 2, AddHistory 1] (init True heap0 env0) = Inr w_dup"
  by (simp add: w_dup_def w_inst_def install_def init_def heap0_def opts0_def lookup_def
      call_addHistory_def addHistory_live_def)

lemma distinct_add:
  "distinct (history w) \<Longrightarrow> e \<notin> set (history w) \<Longrightarrow> call_addHistory w e = Inr w' \<Longrightarrow>
   distinct (history w')"
  by (auto simp: call_addHistory_def noop_def addHistory_live_def Let_def
      split: slot.splits option.splits)

lemma distinct_remove: "distinct (history w) \<Longrightarrow> distinct (history (call_removeHistory w e))"
  by (cases "e \<in> set (history w)")
     (auto simp: call_removeHistory_def noop_def removeHistory_live_in removeHistory_live_notin
      split: slot.splits)

lemma distinct_perform:
  "distinct (history w) \<Longrightarrow> fresh_calls cs w \<Longrightarrow> perform cs w = Inr w' \<Longrightarrow> distinct (history w')"
proof (induction cs w rule: perform.induct)
  case (1 w)
  then show ?case by simp
next
  case (2 e cs w)
  then show ?case by (auto split: sum.splits dest: distinct_add)
next
  case (3 e cs w)
  then show ?case by (auto dest: distinct_remove)
qed

lemma distinct_backHandler:
  assumes "distinct (history w)" and "fresh_calls (top_calls w) (at_condition w)"
    and "backHandler opts w = Inr w'"
  shows "distinct (history w')"
proof -
  from assms(1) have "distinct (history (at_condition w))"
    by (simp add: at_condition_def)
  from distinct_perform [OF this assms(2)] backHandler_cases [OF assms(3)] assms(1)
  show ?thesis by (auto simp: distinct_butlast)
qed

lemma distinct_step:
  assumes "distinct (history w)"
    and "case x of AddHistory e \<Rightarrow> e \<notin> set (history w)
         | Listener opts \<Rightarrow> fresh_calls (top_calls w) (at_condition w) | _ \<Rightarrow> True"
    and "step x w = Inr w'"
  shows "distinct (history w')"
proof (cases x)
  case (Install a opts)
  with assms show ?thesis by (auto simp: install_def)
next
  case (AddHistory e)
  with assms show ?thesis by (auto dest: distinct_add)
next
  case (RemoveHistory e)
  with assms show ?thesis by (auto dest: distinct_remove)
next
  case (Listener opts)
  with assms show ?thesis by (auto dest: distinct_backHandler)
next
  case Teardown
  with assms show ?thesis by (auto simp: teardown_def)
next
  case (NewEntry ent)
  with assms show ?thesis by auto
next
  case (SetEntry r ent)
  with assms show ?thesis by auto
next
  case (SetEnv v)
  with assms show ?thesis by auto
qed

lemma distinct_run:
  "distinct (history w) \<Longrightarrow> no_readd xs w \<Longrightarrow> run xs w = Inr w' \<Longrightarrow> distinct (history w')"
proof (induction xs arbitrary: w)
  case Nil
  then show ?case by simp
next
  case (Cons x xs)
  from Cons.prems(3) obtain w1 where s: "step x w = Inr w1" and r: "run xs w1 = Inr w'"
    by (auto split: sum.splits)
  from Cons.prems(2) s have g: "case x of AddHistory e \<Rightarrow> e \<notin> set (history w)
      | Listener opts \<Rightarrow> fresh_calls (top_calls w) (at_condition w) | _ \<Rightarrow> True"
    and n: "no_readd xs w1" by simp_all
  from distinct_step [OF Cons.prems(1) g s] have "distinct (history w1)" .
  from Cons.IH [OF this n r] show ?case .
qed

lemmas scenario_defs =
  w_c_def w_b_def b1_def w_a_def b0_def useBackHandler_def w_inst_def install_def init_def
  heap0_def opts0_def env0_def env1_def

lemma addToHistory_result:
  "addToHistory b w =
     Inr (b\<lparr>historyEntry := Some (length (heap w))\<rparr>,
          (case addHistory w of
             Noop \<Rightarrow> w\<lparr>heap := heap w @
                 [\<lparr>condition = Some (ToValue (autoHideOnRouteChange b)), handler = onHide b\<rparr>]\<rparr>
           | Live opts \<Rightarrow>
               w\<lparr>heap := heap w @
                   [\<lparr>condition = Some (ToValue (autoHideOnRouteChange b)), handler = onHide b\<rparr>],
                 history := history w @ [length (heap w)],
                 trace := (case onHistoryAdded opts of
                             None \<Rightarrow> trace w
                           | Some f \<Rightarrow> trace w @ [CallOnHistoryAdded f (length (heap w))])\<rparr>))"
  by (simp add: addToHistory_def Let_def call_addHistory_def noop_def addHistory_live_def lookup_def
      split: slot.splits option.splits)

lemma add_2: "call_addHistory w_inst 2 = Inr w_a"
  by (simp add: scenario_defs call_addHistory_def addHistory_live_def lookup_def)

lemma add_binding: "addToHistory b0 w_a = Inr (b1, w_b)"
  by (simp add: scenario_defs addToHistory_def call_addHistory_def addHistory_live_def lookup_def)

lemma press_back: "backHandler opts0 w_b = Inr w_c"
  by (simp add: scenario_defs backHandler_def lookup_def)

lemma run_w_b:
  "run [Install 1 opts0, AddHistory 2,
        NewEntry \<lparr>condition = Some (ToValue (Ref 0)), handler = 30\<rparr>, AddHistory 3]
     (init True heap0 env0) = Inr w_b"
  by (simp add: scenario_defs call_addHistory_def addHistory_live_def lookup_def)

lemma env_add: "call_addHistory w e = Inr w' \<Longrightarrow> env w' = env w"
  by (auto simp: call_addHistory_def noop_def addHistory_live_def Let_def
      split: slot.splits option.splits)

lemma env_remove: "env (call_removeHistory w e) = env w"
  by (auto simp: call_removeHistory_def noop_def removeHistory_live_def Let_def split: slot.splits)

lemma env_perform: "perform cs w = Inr w' \<Longrightarrow> env w' = env w"
proof (induction cs w rule: perform.induct)
  case (1 w)
  then show ?case by simp
next
  case (2 e cs w)
  then show ?case by (auto split: sum.splits dest: env_add)
next
  case (3 e cs w)
  then show ?case by (auto simp: env_remove)
qed




lemma run_w_r: "run [Install 1 opts0, AddHistory 1, AddHistory 3] (init True heap_r env0) = Inr w_r"
  by (simp add: w_r_def heap_r_def install_def init_def heap0_def opts0_def lookup_def
      call_addHistory_def addHistory_live_def)

section \<open>The listener\<close>

text \<open>
  C1, as the claim states it, fails. With entries 1 and 3 in the history, where the
  condition of the top entry 3 calls \<open>BackHandler.addHistory\<close> with entry 0 and returns
  true, the listener pops entry 0, which the condition has just pushed: the history is
  \<open>[1, 3]\<close> afterwards, so the entry whose handler is called is still in it.
\<close>

theorem listener_pops_entry_pushed_by_condition:
  "run [Install 1 opts0, AddHistory 1, AddHistory 3] (init True heap_r env0) = Inr w_r \<and>
   history w_r = [1, 3] \<and>
   lookup (heap w_r) 3 = Some \<lparr>condition = Some (ReentrantCondition 0 [AddCall 0]), handler = 23\<rparr> \<and>
   call_condition (ReentrantCondition 0 [AddCall 0]) (env w_r) \<and>
   backHandler opts0 w_r = Inr w_r' \<and> history w_r' = [1, 3] \<and>
   trace w_r' = trace w_r @ [CallCondition 3, CallOnHistoryAdded 10 0, CallHandler 3 23]"
  using run_w_r
  by (simp add: w_r'_def w_r_def heap_r_def install_def init_def heap0_def opts0_def env0_def
      lookup_def backHandler_def call_addHistory_def addHistory_live_def)

text \<open>
  C1, amended. An invocation of the listener \<open>backHandler\<close> on an empty history calls
  \<open>defaultBackAction\<close> once and nothing else. On a history \<open>hs @ [e]\<close> whose top entry
  \<open>e\<close> has a condition that evaluates true and whose evaluation leaves the history as it
  was, the history becomes \<open>hs\<close> (the top is popped, the rest keeps its order), the handler
  of \<open>e\<close> is called once after the condition, and \<open>defaultBackAction\<close> is not called; the
  world is otherwise as the condition left it. A condition that makes no call to the
  registry is such a condition, and then nothing else changes at all.
\<close>

theorem listener_top_or_default:
  "(history w = [] \<longrightarrow>
      backHandler opts w =
        Inr (w\<lparr>trace := trace w @ [CallDefaultBackAction (defaultBackAction opts)]\<rparr>)) \<and>
   (history w = hs @ [e] \<and> lookup (heap w) e = Some ent \<and> condition ent = Some c \<and>
    call_condition c (env w) \<and>
    perform (condition_calls c) (w\<lparr>trace := trace w @ [CallCondition e]\<rparr>) = Inr w1 \<and>
    history w1 = history w \<longrightarrow>
      backHandler opts w =
        Inr (w1\<lparr>history := hs, trace := trace w1 @ [CallHandler e (handler ent)]\<rparr>)) \<and>
   (history w = hs @ [e] \<and> lookup (heap w) e = Some ent \<and> condition ent = Some c \<and>
    call_condition c (env w) \<and> condition_calls c = [] \<longrightarrow>
      backHandler opts w =
        Inr (w\<lparr>history := hs,
               trace := trace w @ [CallCondition e, CallHandler e (handler ent)]\<rparr>))"
proof -
  have "backHandler opts w =
        Inr (w1\<lparr>history := hs, trace := trace w1 @ [CallHandler e (handler ent)]\<rparr>)"
    if "history w = hs @ [e]" "lookup (heap w) e = Some ent" "condition ent = Some c"
      "call_condition c (env w)"
      "perform (condition_calls c) (w\<lparr>trace := trace w @ [CallCondition e]\<rparr>) = Inr w1"
      "history w1 = history w"
  proof -
    from env_perform [OF that(5)] have "env w1 = env w" by simp
    with that show ?thesis by (simp add: backHandler_def Let_def)
  qed
  then show ?thesis by (simp add: backHandler_def Let_def)
qed

theorem listener_top_or_default_witness:
  "history w_inst = [] \<and>
   backHandler opts0 w_inst =
     Inr (w_inst\<lparr>trace := trace w_inst @ [CallDefaultBackAction 12]\<rparr>) \<and>
   history (w_inst\<lparr>history := [1, 2]\<rparr>) = [1] @ [2] \<and>
   lookup (heap (w_inst\<lparr>history := [1, 2]\<rparr>)) 2 = Some \<lparr>condition = Some (UserCondition 0), handler = 22\<rparr> \<and>
   call_condition (UserCondition 0) (env (w_inst\<lparr>history := [1, 2]\<rparr>)) \<and>
   condition_calls (UserCondition 0) = [] \<and>
   backHandler opts0 (w_inst\<lparr>history := [1, 2]\<rparr>) =
     Inr (w_inst\<lparr>history := [1], trace := trace w_inst @ [CallCondition 2, CallHandler 2 22]\<rparr>) \<and>
   history w_q = [1] @ [4] \<and>
   lookup (heap w_q) 4 = Some \<lparr>condition = Some (ReentrantCondition 0 [RemoveCall 0]), handler = 24\<rparr> \<and>
   call_condition (ReentrantCondition 0 [RemoveCall 0]) (env w_q) \<and>
   perform (condition_calls (ReentrantCondition 0 [RemoveCall 0]))
     (w_q\<lparr>trace := trace w_q @ [CallCondition 4]\<rparr>) =
     Inr (w_q\<lparr>trace := trace w_q @ [CallCondition 4]\<rparr>) \<and>
   history (w_q\<lparr>trace := trace w_q @ [CallCondition 4]\<rparr>) = history w_q \<and>
   backHandler opts0 w_q =
     Inr (w_q\<lparr>history := [1], trace := trace w_q @ [CallCondition 4, CallHandler 4 24]\<rparr>)"
proof -
  have p: "perform (condition_calls (ReentrantCondition 0 [RemoveCall 0]))
     (w_q\<lparr>trace := trace w_q @ [CallCondition 4]\<rparr>) =
     Inr (w_q\<lparr>trace := trace w_q @ [CallCondition 4]\<rparr>)"
    by (simp add: w_q_def install_def init_def call_removeHistory_def removeHistory_live_def)
  have q: "history w_q = [1] @ [4]"
    "lookup (heap w_q) 4 = Some \<lparr>condition = Some (ReentrantCondition 0 [RemoveCall 0]), handler = 24\<rparr>"
    "call_condition (ReentrantCondition 0 [RemoveCall 0]) (env w_q)"
    by (simp_all add: w_q_def install_def init_def heap_r_def heap0_def env0_def lookup_def)
  have "backHandler opts0 w_q =
     Inr (w_q\<lparr>history := [1], trace := trace w_q @ [CallCondition 4, CallHandler 4 24]\<rparr>)"
    using listener_top_or_default [where w = w_q and hs = "[1]" and e = 4
      and ent = "\<lparr>condition = Some (ReentrantCondition 0 [RemoveCall 0]), handler = 24\<rparr>"
      and c = "ReentrantCondition 0 [RemoveCall 0]" and opts = opts0
      and ?w1.0 = "w_q\<lparr>trace := trace w_q @ [CallCondition 4]\<rparr>"] p q
    by simp
  with p q listener_top_or_default [where w = w_inst and opts = opts0]
    listener_top_or_default [where w = "w_inst\<lparr>history := [1, 2]\<rparr>" and hs = "[1]" and e = 2
      and ent = "\<lparr>condition = Some (UserCondition 0), handler = 22\<rparr>"
      and c = "UserCondition 0" and opts = opts0]
  show ?thesis
    by (simp add: w_inst_def install_def init_def heap0_def env0_def opts0_def lookup_def)
qed



section \<open>Install and teardown\<close>

text \<open>
  C3, as the claim states it, fails: where the runtime is not a browser, two consecutive
  calls of \<open>install\<close> call \<open>registerPlatformBackListener\<close> zero times, not once.
\<close>

theorem install_twice_not_browser:
  "registrations (trace (install 2 opts0 (install 1 opts0 (init False heap0 env0)))) = 0"
  by (simp add: install_def init_def registrations_def)

text \<open>
  C3, amended. A call of \<open>install\<close> on an installed registry, or outside a browser,
  returns the world as it was; a second consecutive call never has an effect; and two
  consecutive calls call \<open>registerPlatformBackListener\<close> once when the runtime is a browser
  and the registry was not installed before the first call, and not at all otherwise.
\<close>

theorem install_gated_idempotent:
  "(installed w \<or> \<not> isBrowser w \<longrightarrow> install a opts w = w) \<and>
   install a2 o2 (install a1 o1 w) = install a1 o1 w \<and>
   registrations (trace (install a2 o2 (install a1 o1 w))) =
     registrations (trace w) + (if isBrowser w \<and> \<not> installed w then 1 else 0)"
  by (simp add: install_def registrations_append) (simp add: registrations_def)

theorem install_gated_idempotent_witness:
  "(installed w_inst \<or> \<not> isBrowser w_inst) \<and> install 2 opts0 w_inst = w_inst \<and>
   install 2 opts0 (install 1 opts0 (init True heap0 env0)) = install 1 opts0 (init True heap0 env0) \<and>
   registrations (trace (install 2 opts0 (install 1 opts0 (init True heap0 env0)))) = 1"
  using install_gated_idempotent [where w = w_inst and a = 2 and opts = opts0]
    install_gated_idempotent [where w = "init True heap0 env0" and ?a1.0 = 1 and ?o1.0 = opts0
      and ?a2.0 = 2 and ?o2.0 = opts0]
  by (simp add: w_inst_def install_def init_def registrations_def)

text \<open>
  C4. In every state that a sequence of installs, additions, removals, listener
  invocations, teardowns and steps of the callers reaches from the initial state (a
  reachable state), if the registry is not
  installed then \<open>BackHandler.addHistory\<close> and \<open>BackHandler.removeHistory\<close> return the
  world as it was: history, \<open>installed\<close> and the trace of observer calls are unchanged. The
  initial state is not installed, and neither is the state after a teardown, where both
  calls are no-ops as well.
\<close>

theorem uninstalled_noops:
  "(run xs (init b h v) = Inr w \<and> \<not> installed w \<longrightarrow>
      call_addHistory w e = Inr w \<and> call_removeHistory w e = w) \<and>
   \<not> installed (init b h v) \<and> \<not> installed (teardown w0) \<and>
   call_addHistory (teardown w0) e = Inr (teardown w0) \<and>
   call_removeHistory (teardown w0) e = teardown w0"
proof -
  have "call_addHistory w e = Inr w \<and> call_removeHistory w e = w"
    if "run xs (init b h v) = Inr w" "\<not> installed w"
  proof -
    from that(1) have "slots_ok w" by (rule reachable_slots)
    with that(2) show ?thesis
      by (auto simp: slots_ok_def call_addHistory_def call_removeHistory_def noop_def
          split: slot.splits)
  qed
  then show ?thesis
    by (simp add: init_def teardown_def call_addHistory_def call_removeHistory_def noop_def)
qed

theorem uninstalled_noops_witness:
  "run [Install 1 opts0, Teardown] (init True heap0 env0) = Inr (teardown w_inst) \<and>
   \<not> installed (teardown w_inst) \<and>
   call_addHistory (teardown w_inst) 1 = Inr (teardown w_inst) \<and>
   call_removeHistory (teardown w_inst) 1 = teardown w_inst"
  using uninstalled_noops [where xs = "[Install 1 opts0, Teardown]" and b = True
      and h = heap0 and v = env0 and w = "teardown w_inst" and e = 1 and ?w0.0 = w_inst]
  by (simp add: w_inst_def)

section \<open>Adding and removing entries\<close>

text \<open>
  C5. In every reachable state in which the registry is installed, \<open>BackHandler.addHistory\<close>
  of an entry object \<open>e\<close> succeeds; it writes the default condition \<open>getTrue\<close>, which is
  true in every environment, into \<open>e\<close> when \<open>e\<close> has none and leaves \<open>e\<close> alone otherwise;
  it appends \<open>e\<close> at the end of the history; and it calls \<open>onHistoryAdded\<close> of the options
  of the install in force once with \<open>e\<close> when that observer is configured, and calls
  nothing otherwise.
\<close>

theorem addHistory_appends_and_notifies:
  assumes "run xs (init b h v) = Inr w" and "installed w" and "lookup (heap w) e = Some ent"
  shows "\<exists>opts. last_registered (trace w) = Some opts \<and>
           call_addHistory w e =
             Inr (w\<lparr>heap := (case condition ent of
                               None \<Rightarrow> (heap w)[e := ent\<lparr>condition := Some GetTrue\<rparr>]
                             | Some c \<Rightarrow> heap w),
                    history := history w @ [e],
                    trace := trace w @
                      (case onHistoryAdded opts of None \<Rightarrow> [] | Some f \<Rightarrow> [CallOnHistoryAdded f e])\<rparr>) \<and>
           (\<forall>v'. call_condition GetTrue v')"
proof -
  from reachable_installed [OF assms(1,2)] obtain opts
    where "last_registered (trace w) = Some opts" and "addHistory w = Live opts" by blast
  with addHistory_live_obj [OF assms(3), of opts] show ?thesis
    by (auto simp: call_addHistory_def)
qed

theorem addHistory_appends_and_notifies_witness:
  "run [Install 1 opts0] (init True heap0 env0) = Inr w_inst \<and> installed w_inst \<and>
   lookup (heap w_inst) 0 = Some \<lparr>condition = None, handler = 20\<rparr> \<and>
   last_registered (trace w_inst) = Some opts0 \<and>
   call_addHistory w_inst 0 =
     Inr (w_inst\<lparr>heap := [\<lparr>condition = Some GetTrue, handler = 20\<rparr>,
                           \<lparr>condition = Some (UserCondition 1), handler = 21\<rparr>,
                           \<lparr>condition = Some (UserCondition 0), handler = 22\<rparr>],
                  history := [0],
                  trace := trace w_inst @ [CallOnHistoryAdded 10 0]\<rparr>)"
  using addHistory_appends_and_notifies [where xs = "[Install 1 opts0]" and b = True and h = heap0
      and v = env0 and w = w_inst and e = 0 and ent = "\<lparr>condition = None, handler = 20\<rparr>"]
  by (simp add: w_inst_def install_def init_def heap0_def opts0_def lookup_def last_registered_def
      call_addHistory_def addHistory_live_def)

text \<open>
  C6. In every reachable state in which the registry is installed, \<open>BackHandler.removeHistory\<close>
  of an entry \<open>e\<close> that occurs in the history removes its first occurrence, so that a
  history \<open>pre @ e # post\<close> with \<open>e\<close> not in \<open>pre\<close> becomes \<open>pre @ post\<close>, and calls
  \<open>onHistoryRemoved\<close> of the options of the install in force once with \<open>e\<close> when that
  observer is configured; for an entry that does not occur it returns the world as it was.
\<close>

theorem removeHistory_first_occurrence:
  assumes "run xs (init b h v) = Inr w" and "installed w"
  shows "\<exists>opts. last_registered (trace w) = Some opts \<and>
           (e \<in> set (history w) \<longrightarrow>
              call_removeHistory w e =
                w\<lparr>history := remove1 e (history w),
                  trace := trace w @
                    (case onHistoryRemoved opts of None \<Rightarrow> [] | Some f \<Rightarrow> [CallOnHistoryRemoved f e])\<rparr> \<and>
              (\<exists>pre post. history w = pre @ e # post \<and> e \<notin> set pre \<and>
                 remove1 e (history w) = pre @ post)) \<and>
           (e \<notin> set (history w) \<longrightarrow> call_removeHistory w e = w)"
proof -
  from reachable_installed [OF assms] obtain opts
    where "last_registered (trace w) = Some opts" and "removeHistory w = Live opts" by blast
  then show ?thesis
    using remove1_split_first [of e "history w"]
    by (auto simp: call_removeHistory_def removeHistory_live_in removeHistory_live_notin)
qed

theorem removeHistory_first_occurrence_witness:
  "run [Install 1 opts0, AddHistory 1, AddHistory 2, AddHistory 1] (init True heap0 env0) = Inr w_dup \<and>
   installed w_dup \<and> 1 \<in> set (history w_dup) \<and>
   call_removeHistory w_dup 1 =
     w_dup\<lparr>history := [2, 1], trace := trace w_dup @ [CallOnHistoryRemoved 11 1]\<rparr> \<and>
   0 \<notin> set (history w_dup) \<and> call_removeHistory w_dup 0 = w_dup"
proof -
  have r: "run [Install 1 opts0, AddHistory 1, AddHistory 2, AddHistory 1] (init True heap0 env0) = Inr w_dup"
    by (rule run_w_dup)
  have i: "installed w_dup"
    by (simp add: w_dup_def w_inst_def install_def init_def)
  have l: "last_registered (trace w_dup) = Some opts0"
    by (simp add: w_dup_def w_inst_def install_def init_def last_registered_def opts0_def)
  have hist: "history w_dup = [1, 2, 1]"
    by (simp add: w_dup_def)
  from removeHistory_first_occurrence [OF r i, of 1] removeHistory_first_occurrence [OF r i, of 0]
  show ?thesis using r i l hist by (auto simp: opts0_def)
qed

section \<open>Duplicates in the history\<close>

text \<open>
  C7, as the claim states it, fails: installing and then adding entry 1, entry 2 and
  entry 1 again leaves the history \<open>[1, 2, 1]\<close>, in which entry 1 occurs twice.
\<close>

theorem duplicate_after_readd:
  "run_history [Install 1 opts0, AddHistory 1, AddHistory 2, AddHistory 1] (init True heap0 env0)
     = Some [1, 2, 1] \<and> \<not> distinct [1, 2, 1 :: nat]"
  unfolding run_history_def run_w_dup by (simp add: w_dup_def)

text \<open>
  C7, amended. In every state reached from the initial state by a sequence of installs,
  additions, removals, listener invocations, teardowns and steps of the callers in which
  no addition, be it an operation of the sequence or a call made by a condition that the
  listener runs, is given an entry that is in the history at that moment, no entry occurs
  twice in the history.
\<close>

theorem history_distinct_without_readd:
  "no_readd xs (init b h v) \<Longrightarrow> run_history xs (init b h v) = Some hs \<Longrightarrow> distinct hs"
proof -
  assume n: "no_readd xs (init b h v)" and r: "run_history xs (init b h v) = Some hs"
  from r obtain w where w: "run xs (init b h v) = Inr w" and hs: "hs = history w"
    by (auto simp: run_history_def split: sum.splits)
  have "distinct (history (init b h v))" by (simp add: init_def)
  from distinct_run [OF this n w] hs show ?thesis by simp
qed

theorem history_distinct_without_readd_witness:
  "no_readd [Install 1 opts0, AddHistory 1, AddHistory 2, RemoveHistory 1, AddHistory 0,
             Listener opts0, AddHistory 0] (init True heap0 env0) \<and>
   run_history [Install 1 opts0, AddHistory 1, AddHistory 2, RemoveHistory 1, AddHistory 0,
                Listener opts0, AddHistory 0] (init True heap0 env0) = Some [2, 0] \<and>
   distinct [2, 0 :: nat]"
proof -
  have n: "no_readd [Install 1 opts0, AddHistory 1, AddHistory 2, RemoveHistory 1, AddHistory 0,
             Listener opts0, AddHistory 0] (init True heap0 env0)"
    by (simp add: install_def init_def heap0_def opts0_def env0_def lookup_def
        call_addHistory_def addHistory_live_def call_removeHistory_def removeHistory_live_def
        splice1_def backHandler_def top_calls_def at_condition_def Let_def)
  have r: "run_history [Install 1 opts0, AddHistory 1, AddHistory 2, RemoveHistory 1, AddHistory 0,
                Listener opts0, AddHistory 0] (init True heap0 env0) = Some [2, 0]"
    by (simp add: run_history_def install_def init_def heap0_def opts0_def env0_def lookup_def
        call_addHistory_def addHistory_live_def call_removeHistory_def removeHistory_live_def
        splice1_def backHandler_def top_calls_def at_condition_def Let_def)
  from history_distinct_without_readd [OF n r] n r show ?thesis by simp
qed

section \<open>The default condition is written into the caller's object\<close>

text \<open>
  C10. In every reachable state in which the registry is installed, \<open>BackHandler.addHistory\<close>
  of an entry object \<open>e\<close> that has no condition succeeds and changes the object at \<open>e\<close>
  itself: afterwards the store holds at \<open>e\<close> the same entry with \<open>getTrue\<close> as its
  condition, which is true in every environment; the reference appended to the history is
  \<open>e\<close>; no object is created and no other object changes.
\<close>

theorem addHistory_mutates_in_place:
  assumes "run xs (init b h v) = Inr w" and "installed w"
    and "lookup (heap w) e = Some ent" and "condition ent = None"
  shows "\<exists>w'. call_addHistory w e = Inr w' \<and>
           lookup (heap w') e = Some (ent\<lparr>condition := Some GetTrue\<rparr>) \<and>
           history w' = history w @ [e] \<and>
           length (heap w') = length (heap w) \<and>
           (\<forall>r. r \<noteq> e \<longrightarrow> lookup (heap w') r = lookup (heap w) r) \<and>
           (\<forall>v'. call_condition GetTrue v')"
proof -
  from reachable_installed [OF assms(1,2)] obtain opts where "addHistory w = Live opts" by blast
  moreover from assms(3) have "e < length (heap w)"
    by (simp add: lookup_def split: if_splits)
  ultimately show ?thesis
    using addHistory_live_obj [OF assms(3), of opts] assms(4)
    by (simp add: call_addHistory_def lookup_def)
qed

theorem addHistory_mutates_in_place_witness:
  "run [Install 1 opts0] (init True heap0 env0) = Inr w_inst \<and> installed w_inst \<and>
   lookup (heap w_inst) 0 = Some \<lparr>condition = None, handler = 20\<rparr> \<and>
   condition \<lparr>condition = None, handler = 20\<rparr> = None \<and>
   (\<exists>w'. call_addHistory w_inst 0 = Inr w' \<and>
      lookup (heap w') 0 = Some \<lparr>condition = Some GetTrue, handler = 20\<rparr> \<and>
      history w' = [0] \<and> length (heap w') = 3)"
proof -
  have r: "run [Install 1 opts0] (init True heap0 env0) = Inr w_inst"
    by (simp add: w_inst_def)
  have i: "installed w_inst"
    by (simp add: w_inst_def install_def init_def)
  have l: "lookup (heap w_inst) 0 = Some \<lparr>condition = None, handler = 20\<rparr>"
    by (simp add: w_inst_def install_def init_def heap0_def lookup_def)
  have hw: "history w_inst = []" "length (heap w_inst) = 3"
    by (simp_all add: w_inst_def install_def init_def heap0_def)
  from addHistory_mutates_in_place [OF r i l] hw r i l show ?thesis by auto
qed

section \<open>The binding helper\<close>

text \<open>
  C8. \<open>addToHistory\<close> always succeeds, creates a new entry object and retains its
  reference; the condition of that entry is the closure over the auto-hide flag, whose
  value in any environment is the value of the flag in that environment. So whenever the
  listener later finds this entry on top of the history, it pops it and calls the dismiss
  callback if the flag is true at that moment, and absorbs the event if the flag is false
  at that moment, the entry being the one registered once.
\<close>

theorem addToHistory_condition_live:
  "\<exists>w'. addToHistory b w = Inr (b\<lparr>historyEntry := Some (length (heap w))\<rparr>, w') \<and>
     lookup (heap w') (length (heap w)) =
       Some \<lparr>condition = Some (ToValue (autoHideOnRouteChange b)), handler = onHide b\<rparr> \<and>
     (\<forall>v'. call_condition (ToValue (autoHideOnRouteChange b)) v' =
            toValue (autoHideOnRouteChange b) v') \<and>
     (\<forall>w2 hs opts.
        history w2 = hs @ [length (heap w)] \<and>
        lookup (heap w2) (length (heap w)) = lookup (heap w') (length (heap w)) \<longrightarrow>
        backHandler opts w2 =
          Inr (if toValue (autoHideOnRouteChange b) (env w2)
               then w2\<lparr>history := hs,
                       trace := trace w2 @
                         [CallCondition (length (heap w)), CallHandler (length (heap w)) (onHide b)]\<rparr>
               else w2\<lparr>trace := trace w2 @ [CallCondition (length (heap w))]\<rparr>))"
proof -
  let ?new = "\<lparr>condition = Some (ToValue (autoHideOnRouteChange b)), handler = onHide b\<rparr>"
  obtain w' where r: "addToHistory b w = Inr (b\<lparr>historyEntry := Some (length (heap w))\<rparr>, w')"
    and h: "heap w' = heap w @ [?new]"
    using addToHistory_result [of b w] by (cases "addHistory w") auto
  from h have l: "lookup (heap w') (length (heap w)) = Some ?new"
    by (simp add: lookup_def)
  have "backHandler opts w2 =
          Inr (if toValue (autoHideOnRouteChange b) (env w2)
               then w2\<lparr>history := hs,
                       trace := trace w2 @
                         [CallCondition (length (heap w)), CallHandler (length (heap w)) (onHide b)]\<rparr>
               else w2\<lparr>trace := trace w2 @ [CallCondition (length (heap w))]\<rparr>)"
    if "history w2 = hs @ [length (heap w)]"
      and "lookup (heap w2) (length (heap w)) = lookup (heap w') (length (heap w))"
    for w2 hs opts
    using that l by (simp add: backHandler_def Let_def)
  with r l show ?thesis by auto
qed

theorem addToHistory_condition_live_witness:
  "addToHistory b0 w_a = Inr (b0\<lparr>historyEntry := Some 3\<rparr>, w_b) \<and>
   lookup (heap w_b) 3 = Some \<lparr>condition = Some (ToValue (Ref 0)), handler = 30\<rparr> \<and>
   history w_b = [2] @ [3] \<and> toValue (Ref 0) (env w_b) \<and>
   backHandler opts0 w_b =
     Inr (w_b\<lparr>history := [2], trace := trace w_b @ [CallCondition 3, CallHandler 3 30]\<rparr>) \<and>
   history (w_b\<lparr>env := env1\<rparr>) = [2] @ [3] \<and> \<not> toValue (Ref 0) (env (w_b\<lparr>env := env1\<rparr>)) \<and>
   backHandler opts0 (w_b\<lparr>env := env1\<rparr>) =
     Inr (w_b\<lparr>env := env1, trace := trace w_b @ [CallCondition 3]\<rparr>)"
proof -
  have len: "length (heap w_a) = 3" and flag: "autoHideOnRouteChange b0 = Ref 0"
    and hide: "onHide b0 = 30"
    by (simp_all add: scenario_defs)
  from addToHistory_condition_live [of b0 w_a] obtain w'
    where r: "addToHistory b0 w_a = Inr (b0\<lparr>historyEntry := Some 3\<rparr>, w')"
      and l: "lookup (heap w') 3 = Some \<lparr>condition = Some (ToValue (Ref 0)), handler = 30\<rparr>"
      and k: "\<And>w2 hs opts. history w2 = hs @ [3] \<and> lookup (heap w2) 3 = lookup (heap w') 3 \<longrightarrow>
          backHandler opts w2 =
            Inr (if toValue (Ref 0) (env w2)
                 then w2\<lparr>history := hs, trace := trace w2 @ [CallCondition 3, CallHandler 3 30]\<rparr>
                 else w2\<lparr>trace := trace w2 @ [CallCondition 3]\<rparr>)"
    unfolding len flag hide by blast
  from r add_binding have w': "w' = w_b" by simp
  have h: "history w_b = [2] @ [3]" "toValue (Ref 0) (env w_b)"
    "\<not> toValue (Ref 0) (env (w_b\<lparr>env := env1\<rparr>))"
    by (simp_all add: scenario_defs)
  from k [of w_b "[2]" opts0] k [of "w_b\<lparr>env := env1\<rparr>" "[2]" opts0] r l h
  show ?thesis unfolding w' by simp
qed

text \<open>
  C9, as the claim states it, fails: after the listener has popped the binding's entry,
  the binding still retains it; disposal while the "is active" value is true then calls
  \<open>removeHistory\<close> with an entry that is not in the history, and the history keeps its
  length.
\<close>

theorem dispose_after_pop_removes_nothing:
  "call_addHistory w_inst 2 = Inr w_a \<and> addToHistory b0 w_a = Inr (b1, w_b) \<and>
   backHandler opts0 w_b = Inr w_c \<and>
   installed w_c \<and> toValue (showing b1) (env w_c) \<and> historyEntry b1 = Some 3 \<and>
   history w_c = [2] \<and> history (snd (scopeDispose b1 w_c)) = [2]"
  using add_2 add_binding press_back
  by (simp add: scenario_defs scopeDispose_def removeFromHistory_def call_removeHistory_def
      removeHistory_live_def)

text \<open>
  C9, amended. Disposal while the "is active" value is false changes neither the binding
  nor the world. Disposal while it is true, with an entry \<open>e\<close> retained, clears the
  retained reference and calls \<open>BackHandler.removeHistory\<close> with \<open>e\<close>: in a reachable
  state in which the registry is installed and \<open>e\<close> occurs in the history, the first
  occurrence of \<open>e\<close> is removed and the history is one shorter; where the registry is not
  installed, or \<open>e\<close> does not occur in the history, the world is unchanged.
\<close>

theorem scopeDispose_removes_if_active:
  "(\<not> toValue (showing b) (env w) \<longrightarrow> scopeDispose b w = (b, w)) \<and>
   (toValue (showing b) (env w) \<and> historyEntry b = Some e \<longrightarrow>
      scopeDispose b w = (b\<lparr>historyEntry := None\<rparr>, call_removeHistory w e)) \<and>
   (toValue (showing b) (env w) \<and> historyEntry b = Some e \<and>
    run xs (init c h v) = Inr w \<and> installed w \<and> e \<in> set (history w) \<longrightarrow>
      history (snd (scopeDispose b w)) = remove1 e (history w) \<and>
      length (history (snd (scopeDispose b w))) + 1 = length (history w)) \<and>
   (toValue (showing b) (env w) \<and> historyEntry b = Some e \<and>
    (\<not> installed w \<and> run xs (init c h v) = Inr w \<or> e \<notin> set (history w)) \<longrightarrow>
      snd (scopeDispose b w) = w)"
proof -
  have live: "history (call_removeHistory w e) = remove1 e (history w) \<and>
      length (history (call_removeHistory w e)) + 1 = length (history w)"
    if "run xs (init c h v) = Inr w" "installed w" "e \<in> set (history w)"
  proof -
    from reachable_installed [OF that(1,2)] obtain opts where "removeHistory w = Live opts"
      by blast
    with that(3) show ?thesis
      by (simp add: call_removeHistory_def removeHistory_live_in length_remove1)
         (cases "history w", simp_all)
  qed
  have off: "call_removeHistory w e = w" if "run xs (init c h v) = Inr w" "\<not> installed w"
  proof -
    from that(1) have "slots_ok w" by (rule reachable_slots)
    with that(2) show ?thesis
      by (auto simp: slots_ok_def call_removeHistory_def noop_def split: slot.splits)
  qed
  have absent: "call_removeHistory w e = w" if "e \<notin> set (history w)"
    using that by (simp add: call_removeHistory_def noop_def removeHistory_live_notin split: slot.splits)
  from live off absent show ?thesis
    by (auto simp: scopeDispose_def removeFromHistory_def)
qed

theorem scopeDispose_removes_if_active_witness:
  "run [Install 1 opts0, AddHistory 2,
        NewEntry \<lparr>condition = Some (ToValue (Ref 0)), handler = 30\<rparr>, AddHistory 3]
     (init True heap0 env0) = Inr w_b \<and>
   installed w_b \<and> toValue (showing b1) (env w_b) \<and> historyEntry b1 = Some 3 \<and>
   3 \<in> set (history w_b) \<and> history w_b = [2, 3] \<and>
   history (snd (scopeDispose b1 w_b)) = [2] \<and>
   \<not> toValue (showing b1) (env (w_b\<lparr>env := env1\<rparr>)) \<and>
   scopeDispose b1 (w_b\<lparr>env := env1\<rparr>) = (b1, w_b\<lparr>env := env1\<rparr>)"
proof -
  have f: "installed w_b" "toValue (showing b1) (env w_b)" "historyEntry b1 = Some 3"
    "3 \<in> set (history w_b)" "history w_b = [2, 3]"
    "\<not> toValue (showing b1) (env (w_b\<lparr>env := env1\<rparr>))"
    by (simp_all add: scenario_defs)
  have a: "history (snd (scopeDispose b1 w_b)) = remove1 3 (history w_b)"
    using scopeDispose_removes_if_active [where b = b1 and w = w_b and e = 3
      and xs = "[Install 1 opts0, AddHistory 2,
        NewEntry \<lparr>condition = Some (ToValue (Ref 0)), handler = 30\<rparr>, AddHistory 3]"
      and c = True and h = heap0 and v = env0] run_w_b f(1-4)
    by blast
  have b: "scopeDispose b1 (w_b\<lparr>env := env1\<rparr>) = (b1, w_b\<lparr>env := env1\<rparr>)"
    using scopeDispose_removes_if_active [where b = b1 and w = "w_b\<lparr>env := env1\<rparr>"] f(6)
    by blast
  from a have "history (snd (scopeDispose b1 w_b)) = [2]"
    by (simp add: f(5))
  with b run_w_b f show ?thesis by blast
qed


end
